theory Spec2Isabelle
  imports Complex_Main "HOL-Library.Word"
begin

section \<open>Data model of \<open>main.py\<close>\<close>

text \<open>
  PCM data is a Python \<open>bytes\<close> object: a list of 8-bit words. Python floats
  (\<open>time.time()\<close>, the RMS value, the three audio settings) are idealised as reals;
  Python ints (\<open>user.id\<close>, the samples and their sum of squares) are unbounded integers.
\<close>

type_synonym byte = "8 word"
type_synonym bytes = "byte list"

text \<open>The exceptions of the code: \<open>struct.error\<close>, \<open>KeyError\<close> of a dict subscript or of
  \<open>set.remove\<close>, and whatever an external service (wave file, OpenAI client, voice client,
  file system) raises, tagged by a message.\<close>

datatype error = StructError | KeyError | ServiceError string

text \<open>A Discord member, as far as the sink reads it: \<open>user.id\<close> and \<open>user.name\<close>.\<close>

record user =
  user_id :: int
  user_name :: string

text \<open>One entry of \<open>self.user_data\<close>: the dict
  \<open>{'buffer': bytearray, 'last_spoken': time, 'processing': bool}\<close>.\<close>

record user_record =
  buffer :: bytes
  last_spoken :: real
  processing :: bool

text \<open>The mutable attributes of \<open>ContinuousSink\<close> (lines 38-39).\<close>

record ContinuousSink =
  user_data :: "int \<rightharpoonup> user_record"
  speaking_users :: "int set"

definition init_sink :: ContinuousSink where
  "init_sink = \<lparr>user_data = Map.empty, speaking_users = {}\<rparr>"

subsection \<open>Audio settings (lines 29-31)\<close>

definition SILENCE_THRESHOLD :: real where
  "SILENCE_THRESHOLD = 500"

definition SILENCE_DURATION :: real where
  "SILENCE_DURATION = 1.2"

definition MIN_AUDIO_LENGTH :: real where
  "MIN_AUDIO_LENGTH = 0.5"

section \<open>RMS amplitude of a frame (lines 48-57)\<close>

text \<open>One \<open>h\<close> item of the little-endian format \<open>"<hh...h"\<close>: two bytes, low byte first,
  read as a signed 16-bit integer.\<close>

definition int16_le :: "byte \<Rightarrow> byte \<Rightarrow> int" where
  "int16_le lo hi = sint (word_cat hi lo :: 16 word)"

fun unpack_items :: "bytes \<Rightarrow> int list" where
  "unpack_items (lo # hi # rest) = int16_le lo hi # unpack_items rest"
| "unpack_items _ = []"

text \<open>\<open>struct.unpack("<" + "h" * count, pcm)\<close>: raises \<open>struct.error\<close> unless the buffer
  holds exactly the \<open>2 * count\<close> bytes the format asks for.\<close>

definition struct_unpack :: "nat \<Rightarrow> bytes \<Rightarrow> error + int list" where
  "struct_unpack count pcm =
     (if length pcm = 2 * count then Inr (unpack_items pcm) else Inl StructError)"

text \<open>Lines 50-57: the \<open>try\<close> block computes the value, \<open>except Exception\<close> replaces any
  failure by 0.\<close>

definition rms_of :: "bytes \<Rightarrow> real" where
  "rms_of pcm =
     (let count = length pcm div 2 in
      case struct_unpack count pcm of
        Inl e \<Rightarrow> 0
      | Inr samples \<Rightarrow>
          (let sum_squares = (\<Sum>s\<leftarrow>samples. s * s) in
           if count > 0 then sqrt (real_of_int sum_squares / real count) else 0))"

section \<open>Frame ingestion: \<open>ContinuousSink.write\<close> (lines 44-96)\<close>

text \<open>\<open>self.speaking_users.remove(k)\<close> raises \<open>KeyError\<close> when \<open>k\<close> is not a member.\<close>

definition set_remove :: "int \<Rightarrow> int set \<Rightarrow> error + int set" where
  "set_remove k S = (if k \<in> S then Inr (S - {k}) else Inl KeyError)"

text \<open>A call \<open>asyncio.run_coroutine_threadsafe(self.process_audio(user, audio_copy), ...)\<close>
  scheduled by the method \<open>write\<close>: the user and the immutable \<open>bytes\<close> copy of the buffer.\<close>

type_synonym dispatch = "user \<times> bytes"

text \<open>
  \<open>write_frame self is_playing user pcm now\<close> is the method \<open>write\<close> (the name is an
  Isar keyword): the sink before the call, the answer of
  \<open>self.voice_client.is_playing()\<close>, the \<open>user\<close> argument (\<open>None\<close> when the frame has no
  attributed speaker), \<open>data.pcm\<close> and the value \<open>time.time()\<close> returns at line 59. The result
  is the sink after the call and the coroutine scheduled, if any; an uncaught exception
  would be \<open>Inl\<close>.
\<close>

definition write_frame ::
  "ContinuousSink \<Rightarrow> bool \<Rightarrow> user option \<Rightarrow> bytes \<Rightarrow> real \<Rightarrow> error + (ContinuousSink \<times> dispatch option)"
where
  "write_frame self is_playing user pcm now =
     (case user of
        None \<Rightarrow> Inr (self, None)
      | Some u \<Rightarrow>
          if is_playing then Inr (self, None)
          else
            let rms = rms_of pcm;
                self1 =
                  (if user_data self (user_id u) = None
                   then self\<lparr>user_data := (user_data self)(user_id u \<mapsto>
                          \<lparr>buffer = [], last_spoken = now, processing = False\<rparr>)\<rparr>
                   else self)
            in
              (case user_data self1 (user_id u) of
                None \<Rightarrow> Inl KeyError
              | Some rec \<Rightarrow>
                  if processing rec then Inr (self1, None)
                  else if rms > SILENCE_THRESHOLD then
                    Inr (self1\<lparr>user_data := (user_data self1)(user_id u \<mapsto>
                                  rec\<lparr>buffer := buffer rec @ pcm, last_spoken := now\<rparr>),
                               speaking_users := insert (user_id u) (speaking_users self1)\<rparr>,
                         None)
                  else if user_id u \<in> speaking_users self1 then
                    (let silence_duration = now - last_spoken rec in
                     if silence_duration > SILENCE_DURATION then
                       (case set_remove (user_id u) (speaking_users self1) of
                          Inl e \<Rightarrow> Inl e
                        | Inr speaking \<Rightarrow>
                            if real (length (buffer rec)) > MIN_AUDIO_LENGTH * 48000 * 2 * 2 then
                              (let audio_copy = buffer rec in
                               Inr (self1\<lparr>user_data := (user_data self1)(user_id u \<mapsto>
                                             rec\<lparr>processing := True, buffer := []\<rparr>),
                                          speaking_users := speaking\<rparr>,
                                    Some (u, audio_copy)))
                            else
                              Inr (self1\<lparr>user_data := (user_data self1)(user_id u \<mapsto>
                                            rec\<lparr>buffer := []\<rparr>),
                                         speaking_users := speaking\<rparr>,
                                   None))
                     else Inr (self1, None))
                  else Inr (self1, None)))"

section \<open>Utterance processing: \<open>ContinuousSink.process_audio\<close> (lines 98-165)\<close>

text \<open>
  The external calls of one invocation, each returning a value or raising: writing the wave
  file (lines 104-108), the Whisper transcription (lines 112-117, the value is
  \<open>transcript.text\<close>), removing the recording in the inner \<open>finally\<close> (lines 123-124), the
  chat completion (lines 131-138), the speech synthesis with \<open>stream_to_file\<close>
  (lines 146-152), \<open>voice_client.is_connected()\<close> and \<open>voice_client.play\<close> (lines 155-156).
\<close>

record services =
  wave_write :: "bytes \<Rightarrow> error + unit"
  transcription :: "bytes \<Rightarrow> error + string"
  remove_recording :: "error + unit"
  chat_completion :: "string \<Rightarrow> error + string"
  speech :: "string \<Rightarrow> error + unit"
  is_connected :: "error + bool"
  play :: "error + unit"

text \<open>What an invocation does to the outside: the lines it prints and the playback it starts.\<close>

datatype message =
    Processing_audio string
  | Said string string
  | Error_in_STT error
  | Reply string
  | Error_in_Chat error
  | Error_in_TTS error
  | Error_in_process_audio error

datatype action = Print message | Play

text \<open>\<open>str.strip()\<close> on 8-bit characters: the characters for which \<open>str.isspace\<close> holds.\<close>

definition isspace :: "char \<Rightarrow> bool" where
  "isspace c = (of_char c \<in> {9, 10, 11, 12, 13, 28, 29, 30, 31, 32, 133, 160 :: nat})"

definition strip :: "string \<Rightarrow> string" where
  "strip s = rev (dropWhile isspace (rev (dropWhile isspace s)))"

text \<open>Lines 100-159, the body of the outer \<open>try\<close>: the actions performed, and \<open>Inl e\<close> when
  the exception \<open>e\<close> leaves the body (\<open>Inr ()\<close> for a \<open>return\<close> or the normal end).\<close>

definition process_audio_try :: "services \<Rightarrow> user \<Rightarrow> bytes \<Rightarrow> action list \<times> (error + unit)" where
  "process_audio_try env u pcm_data =
     (let out0 = [Print (Processing_audio (user_name u))] in
      case wave_write env pcm_data of
        Inl e \<Rightarrow> (out0, Inl e)
      | Inr _ \<Rightarrow>
          (case transcription env pcm_data of
             Inl e \<Rightarrow>
               (let out1 = out0 @ [Print (Error_in_STT e)] in
                case remove_recording env of
                  Inl e' \<Rightarrow> (out1, Inl e')
                | Inr _ \<Rightarrow> (out1, Inr ()))
           | Inr user_text \<Rightarrow>
               (let out1 = out0 @ [Print (Said (user_name u) user_text)] in
                case remove_recording env of
                  Inl e' \<Rightarrow> (out1, Inl e')
                | Inr _ \<Rightarrow>
                    if user_text = [] \<or> length (strip user_text) = 0 then (out1, Inr ())
                    else
                      (case chat_completion env user_text of
                         Inl e \<Rightarrow> (out1 @ [Print (Error_in_Chat e)], Inr ())
                       | Inr bot_reply \<Rightarrow>
                           (let out2 = out1 @ [Print (Reply bot_reply)] in
                            case speech env bot_reply of
                              Inl e \<Rightarrow> (out2 @ [Print (Error_in_TTS e)], Inr ())
                            | Inr _ \<Rightarrow>
                                (case is_connected env of
                                   Inl e \<Rightarrow> (out2 @ [Print (Error_in_TTS e)], Inr ())
                                 | Inr is_conn \<Rightarrow>
                                     if is_conn then
                                       (case play env of
                                          Inl e \<Rightarrow> (out2 @ [Print (Error_in_TTS e)], Inr ())
                                        | Inr _ \<Rightarrow> (out2 @ [Play], Inr ()))
                                     else (out2, Inr ())))))))"

text \<open>Lines 163-165, the outer \<open>finally\<close>.\<close>

definition release :: "ContinuousSink \<Rightarrow> int \<Rightarrow> ContinuousSink" where
  "release self k =
     (case user_data self k of
        None \<Rightarrow> self
      | Some rec \<Rightarrow> self\<lparr>user_data := (user_data self)(k \<mapsto> rec\<lparr>processing := False\<rparr>)\<rparr>)"

text \<open>
  The whole coroutine. It reads and writes the sink only in its \<open>finally\<close> block, so \<open>self\<close>
  is the sink at the moment the block runs. \<open>except Exception\<close> (line 161) handles every
  exception that leaves the body; an exception leaving the coroutine would be \<open>Inl\<close>.
\<close>

definition process_audio ::
  "services \<Rightarrow> ContinuousSink \<Rightarrow> user \<Rightarrow> bytes \<Rightarrow> error + (ContinuousSink \<times> action list)" where
  "process_audio env self u pcm_data =
     (let (out, r) = process_audio_try env u pcm_data;
          (out', r') =
            (case r of
               Inl e \<Rightarrow> (out @ [Print (Error_in_process_audio e)], Inr ())
             | Inr x \<Rightarrow> (out, Inr x));
          self' = release self (user_id u)
      in case r' of Inl e \<Rightarrow> Inl e | Inr _ \<Rightarrow> Inr (self', out'))"

section \<open>The sink and its outstanding coroutines\<close>

text \<open>
  A session is the sink together with the \<open>process_audio\<close> calls that \<open>write\<close> has scheduled
  and that have not finished. The voice receiver calls \<open>write\<close> once per frame; a scheduled
  call finishes at some later moment. Each call of \<open>write\<close> is one step: it makes no external
  call and a coroutine touches the sink only in its last statement.
\<close>

record session =
  sink :: ContinuousSink
  in_flight :: "dispatch list"

datatype event =
    Frame bool "user option" bytes real
  | Finish nat services

definition init_session :: session where
  "init_session = \<lparr>sink = init_sink, in_flight = []\<rparr>"

fun step :: "session \<Rightarrow> event \<Rightarrow> error + session" where
  "step ss (Frame is_playing user pcm now) =
     (case write_frame (sink ss) is_playing user pcm now of
        Inl e \<Rightarrow> Inl e
      | Inr (self', d) \<Rightarrow>
          Inr \<lparr>sink = self',
               in_flight = in_flight ss @ (case d of None \<Rightarrow> [] | Some c \<Rightarrow> [c])\<rparr>)"
| "step ss (Finish i env) =
     (if i < length (in_flight ss) then
        (case process_audio env (sink ss) (fst (in_flight ss ! i)) (snd (in_flight ss ! i)) of
           Inl e \<Rightarrow> Inl e
         | Inr (self', out) \<Rightarrow>
             Inr \<lparr>sink = self', in_flight = take i (in_flight ss) @ drop (Suc i) (in_flight ss)\<rparr>)
      else Inr ss)"

fun run :: "session \<Rightarrow> event list \<Rightarrow> error + session" where
  "run ss [] = Inr ss"
| "run ss (e # es) = (case step ss e of Inl x \<Rightarrow> Inl x | Inr ss' \<Rightarrow> run ss' es)"

text \<open>The number of outstanding \<open>process_audio\<close> calls of the speaker with id \<open>k\<close>.\<close>

definition outstanding :: "session \<Rightarrow> int \<Rightarrow> nat" where
  "outstanding ss k = length (filter (\<lambda>d. user_id (fst d) = k) (in_flight ss))"

subsection \<open>Frames of one speaker\<close>

text \<open>A flush is the step that unmarks the speaker (line 83); it finalises the buffer the
  speaker had before the step.\<close>

definition flushed :: "ContinuousSink \<Rightarrow> ContinuousSink \<Rightarrow> int \<Rightarrow> bytes list" where
  "flushed self self' k =
     (if k \<in> speaking_users self \<and> k \<notin> speaking_users self'
      then (case user_data self k of None \<Rightarrow> [] | Some rec \<Rightarrow> [buffer rec])
      else [])"

text \<open>\<open>feed self u frames\<close> calls \<open>write\<close> for each frame \<open>(pcm, now)\<close> of the speaker \<open>u\<close> in
  order, with no playback active, and collects the flushed buffers and the scheduled calls.\<close>

fun feed ::
  "ContinuousSink \<Rightarrow> user \<Rightarrow> (bytes \<times> real) list \<Rightarrow> error + (ContinuousSink \<times> bytes list \<times> dispatch list)"
where
  "feed self u [] = Inr (self, [], [])"
| "feed self u ((pcm, now) # frames) =
     (case write_frame self False (Some u) pcm now of
        Inl e \<Rightarrow> Inl e
      | Inr (self', d) \<Rightarrow>
          (case feed self' u frames of
             Inl e \<Rightarrow> Inl e
           | Inr (self'', fl, ds) \<Rightarrow>
               Inr (self'', flushed self self' (user_id u) @ fl,
                    (case d of None \<Rightarrow> [] | Some c \<Rightarrow> [c]) @ ds)))"

section \<open>Notions used to state the properties\<close>

text \<open>Lines 61-68: the entry a frame of the speaker \<open>k\<close> works on, which is the stored one
  or, for a speaker not seen before, the one line 62 creates.\<close>

definition record_of :: "ContinuousSink \<Rightarrow> real \<Rightarrow> int \<Rightarrow> user_record" where
  "record_of self now k =
     (case user_data self k of
        None \<Rightarrow> \<lparr>buffer = [], last_spoken = now, processing = False\<rparr>
      | Some rec \<Rightarrow> rec)"

definition with_record :: "ContinuousSink \<Rightarrow> int \<Rightarrow> user_record \<Rightarrow> ContinuousSink" where
  "with_record self k rec = self\<lparr>user_data := (user_data self)(k \<mapsto> rec)\<rparr>"

text \<open>
  What holds of every sink the code can reach: a speaker marked as speaking has an entry
  that is not being processed, and the buffer of a speaker not marked as speaking is empty.
\<close>

definition sink_inv :: "ContinuousSink \<Rightarrow> bool" where
  "sink_inv self =
     ((\<forall>k \<in> speaking_users self.
         case user_data self k of None \<Rightarrow> False | Some rec \<Rightarrow> \<not> processing rec) \<and>
      (\<forall>k \<in> dom (user_data self).
         k \<notin> speaking_users self \<longrightarrow>
           (case user_data self k of None \<Rightarrow> True | Some rec \<Rightarrow> buffer rec = [])))"

text \<open>Every outstanding call is the only one of its speaker, whose entry is flagged.\<close>

definition session_inv :: "session \<Rightarrow> bool" where
  "session_inv ss =
     (sink_inv (sink ss) \<and>
      (\<forall>c \<in> set (in_flight ss).
         outstanding ss (user_id (fst c)) = 1 \<and>
         (case user_data (sink ss) (user_id (fst c)) of
            None \<Rightarrow> False | Some rec \<Rightarrow> processing rec)))"

subsection \<open>Sample inputs\<close>

definition alice :: user where
  "alice = \<lparr>user_id = 1, user_name = ''alice''\<rparr>"

definition bob :: user where
  "bob = \<lparr>user_id = 2, user_name = ''bob''\<rparr>"

text \<open>Frames of two samples: 1000 and -1000; 500 and -500; 10 and -10; and three bytes,
  which \<open>struct.unpack\<close> rejects.\<close>

definition loud_pcm :: bytes where
  "loud_pcm = [0xE8, 0x03, 0x18, 0xFC]"

definition edge_pcm :: bytes where
  "edge_pcm = [0xF4, 0x01, 0x0C, 0xFE]"

definition quiet_pcm :: bytes where
  "quiet_pcm = [0x0A, 0x00, 0xF6, 0xFF]"

definition odd_pcm :: bytes where
  "odd_pcm = [0xE8, 0x03, 0xE8]"

text \<open>The sink after one loud frame of \<open>alice\<close> at time 0.\<close>

definition talking_sink :: ContinuousSink where
  "talking_sink =
     \<lparr>user_data = [1 \<mapsto> \<lparr>buffer = loud_pcm, last_spoken = 0, processing = False\<rparr>],
      speaking_users = {1}\<rparr>"

text \<open>
  What the code can observe of the speaker \<open>k\<close>: the buffer and the flag of the entry (those
  of a fresh entry when there is none) and, only while the speaker is marked as speaking,
  \<open>last_spoken\<close>, which line 81 reads under that test alone. Two sinks are equivalent when
  they agree on it for every speaker.
\<close>

definition view :: "ContinuousSink \<Rightarrow> int \<Rightarrow> bytes \<times> bool \<times> real option" where
  "view self k =
     (case user_data self k of
        None \<Rightarrow> ([], False, None)
      | Some rec \<Rightarrow>
          (buffer rec, processing rec,
           if k \<in> speaking_users self then Some (last_spoken rec) else None))"

definition sink_equiv :: "ContinuousSink \<Rightarrow> ContinuousSink \<Rightarrow> bool" where
  "sink_equiv a b = (speaking_users a = speaking_users b \<and> (\<forall>k. view a k = view b k))"

text \<open>The sink in which \<open>alice\<close> has an entry and is not speaking.\<close>

definition idle_sink :: ContinuousSink where
  "idle_sink =
     \<lparr>user_data = [1 \<mapsto> \<lparr>buffer = [], last_spoken = 0, processing = False\<rparr>],
      speaking_users = {}\<rparr>"

subsection \<open>The RMS formula of the specification\<close>

text \<open>A signed 16-bit sample stored low byte first, written out on the values of its two
  bytes: the unsigned number \<open>lo + 256 * hi\<close>, read in two's complement.\<close>

definition signed16_le :: "byte \<Rightarrow> byte \<Rightarrow> int" where
  "signed16_le lo hi =
     (let v = uint lo + 256 * uint hi in if v < 32768 then v else v - 65536)"

text \<open>The \<open>N = len(pcm) // 2\<close> samples of a frame: sample \<open>i\<close> is made of the bytes \<open>2i\<close>
  (low) and \<open>2i + 1\<close> (high), whatever channel it belongs to.\<close>

definition samples_of :: "bytes \<Rightarrow> int list" where
  "samples_of pcm =
     map (\<lambda>i. signed16_le (pcm ! (2 * i)) (pcm ! (2 * i + 1))) [0..<length pcm div 2]"

text \<open>The specification's \<open>rms = sqrt(sum(sample_i^2) / N)\<close>.\<close>

definition rms_spec :: "int list \<Rightarrow> real" where
  "rms_spec samples = sqrt (real_of_int (\<Sum>s\<leftarrow>samples. s\<^sup>2) / real (length samples))"

subsection \<open>Buffers around the minimum length\<close>

text \<open>Buffers of 60000, 96000 and 96002 bytes (samples of value 4112), and the sink in which
  \<open>alice\<close> is speaking with a given buffer, last loud at time 0.\<close>

definition short_utterance :: bytes where
  "short_utterance = replicate 60000 16"

definition long_utterance :: bytes where
  "long_utterance = replicate 96002 16"

definition exact_utterance :: bytes where
  "exact_utterance = replicate 96000 16"

definition speaking_sink :: "bytes \<Rightarrow> ContinuousSink" where
  "speaking_sink buf =
     \<lparr>user_data = [1 \<mapsto> \<lparr>buffer = buf, last_spoken = 0, processing = False\<rparr>],
      speaking_users = {1}\<rparr>"

subsection \<open>Sample services and sessions\<close>

text \<open>Services that all succeed, the sink in which \<open>alice\<close>'s utterance is being processed,
  and a burst of frames: \<open>alice\<close> speaks, falls silent, and goes on sending frames while her
  utterance is processed; \<open>bob\<close> speaks meanwhile.\<close>

definition good_services :: services where
  "good_services =
     \<lparr>wave_write = (\<lambda>pcm. Inr ()),
      transcription = (\<lambda>pcm. Inr ''hello''),
      remove_recording = Inr (),
      chat_completion = (\<lambda>text. Inr ''hi''),
      speech = (\<lambda>text. Inr ()),
      is_connected = Inr True,
      play = Inr ()\<rparr>"

definition processing_sink :: ContinuousSink where
  "processing_sink =
     \<lparr>user_data = [1 \<mapsto> \<lparr>buffer = [], last_spoken = 0, processing = True\<rparr>],
      speaking_users = {}\<rparr>"

definition burst :: "event list" where
  "burst =
     [Frame False (Some alice) long_utterance 0,
      Frame False (Some alice) [] 2,
      Frame False (Some alice) long_utterance 3,
      Frame False (Some alice) [] 5,
      Frame False (Some bob) loud_pcm 5]"

definition after_burst :: session where
  "after_burst =
     \<lparr>sink = \<lparr>user_data = [1 \<mapsto> \<lparr>buffer = [], last_spoken = 0, processing = True\<rparr>,
                            2 \<mapsto> \<lparr>buffer = loud_pcm, last_spoken = 5, processing = False\<rparr>],
              speaking_users = {2}\<rparr>,
      in_flight = [(alice, long_utterance)]\<rparr>"

subsection \<open>Frame sequences of one speaker\<close>

text \<open>A frame \<open>(pcm, now)\<close> is loud when its RMS is above the threshold and silent otherwise;
  \<open>pcm_of\<close> is the audio of a sequence of frames; a speaker is accumulating when marked as
  speaking with an unflagged entry of the given buffer and time of the last loud frame.\<close>

definition loud :: "bytes \<times> real \<Rightarrow> bool" where
  "loud fr = (rms_of (fst fr) > SILENCE_THRESHOLD)"

definition silent :: "bytes \<times> real \<Rightarrow> bool" where
  "silent fr = (rms_of (fst fr) \<le> SILENCE_THRESHOLD)"

definition pcm_of :: "(bytes \<times> real) list \<Rightarrow> bytes" where
  "pcm_of frames = concat (map fst frames)"

definition accumulating :: "ContinuousSink \<Rightarrow> int \<Rightarrow> bytes \<Rightarrow> real \<Rightarrow> bool" where
  "accumulating self k buf t =
     (user_data self k = Some \<lparr>buffer = buf, last_spoken = t, processing = False\<rparr> \<and>
      k \<in> speaking_users self)"

text \<open>The scenario of the specification: loud, 0.3 s of silence, loud again, 1.3 s of silence.\<close>

definition scenario :: "(bytes \<times> real) list" where
  "scenario = [(loud_pcm, 0), (quiet_pcm, 0.3), (loud_pcm, 0.6), (quiet_pcm, 1.9)]"

definition after_scenario :: ContinuousSink where
  "after_scenario =
     \<lparr>user_data = [1 \<mapsto> \<lparr>buffer = [], last_spoken = 0.6, processing = False\<rparr>],
      speaking_users = {}\<rparr>"

section \<open>Properties of the frame ingestion\<close>

lemma with_record_same: "user_data self k = Some rec \<Longrightarrow> with_record self k rec = self"
  by (simp add: with_record_def map_upd_triv)

lemma write_frame_unfold:
  "write_frame self False (Some u) pcm now =
     (let k = user_id u; rec = record_of self now k; self1 = with_record self k rec in
      if processing rec then Inr (self1, None)
      else if rms_of pcm > SILENCE_THRESHOLD then
        Inr (with_record self k (rec\<lparr>buffer := buffer rec @ pcm, last_spoken := now\<rparr>)
               \<lparr>speaking_users := insert k (speaking_users self)\<rparr>, None)
      else if k \<in> speaking_users self \<and> now - last_spoken rec > SILENCE_DURATION then
        if 96000 < length (buffer rec) then
          Inr (with_record self k (rec\<lparr>processing := True, buffer := []\<rparr>)
                 \<lparr>speaking_users := speaking_users self - {k}\<rparr>, Some (u, buffer rec))
        else
          Inr (with_record self k (rec\<lparr>buffer := []\<rparr>)
                 \<lparr>speaking_users := speaking_users self - {k}\<rparr>, None)
      else Inr (self1, None))"
  by (auto simp: write_frame_def record_of_def with_record_def set_remove_def MIN_AUDIO_LENGTH_def Let_def map_upd_triv
      split: option.splits)

lemma write_frame_dropped:
  "user = None \<or> is_playing \<Longrightarrow> write_frame self is_playing user pcm now = Inr (self, None)"
  by (auto simp: write_frame_def split: option.splits)

lemma write_frame_total: "\<exists>self' d. write_frame self is_playing user pcm now = Inr (self', d)"
proof (cases "user = None \<or> is_playing")
  case True
  then show ?thesis by (simp add: write_frame_dropped)
next
  case False
  then obtain u where "user = Some u" "\<not> is_playing" by auto
  then show ?thesis by (simp add: write_frame_unfold Let_def)
qed

lemma sink_inv_iff:
  "sink_inv self \<longleftrightarrow>
     (\<forall>k. k \<in> speaking_users self \<longrightarrow> (\<exists>rec. user_data self k = Some rec \<and> \<not> processing rec)) \<and>
     (\<forall>k rec. user_data self k = Some rec \<longrightarrow> k \<notin> speaking_users self \<longrightarrow> buffer rec = [])"
  unfolding sink_inv_def by (auto split: option.splits)

lemma sink_inv_init: "sink_inv init_sink"
  by (simp add: sink_inv_def init_sink_def)

lemma sink_inv_write:
  assumes "sink_inv self" "write_frame self is_playing user pcm now = Inr (self', d)"
  shows "sink_inv self'"
proof (cases "user = None \<or> is_playing")
  case True
  with assms show ?thesis by (simp add: write_frame_dropped)
next
  case False
  then obtain u where u: "user = Some u" "\<not> is_playing" by auto
  with assms show ?thesis
    unfolding sink_inv_iff
    by (auto simp: write_frame_unfold Let_def with_record_def record_of_def
        split: if_splits option.splits) (metis option.sel)
qed

lemma sink_inv_release: "sink_inv self \<Longrightarrow> sink_inv (release self k)"
  unfolding sink_inv_iff by (auto simp: release_def split: option.splits)

subsection \<open>The sample inputs\<close>

lemmas rms_eval = rms_of_def struct_unpack_def int16_le_def word_cat_eq

lemma rms_loud_pcm: "rms_of loud_pcm = 1000"
  by (simp add: loud_pcm_def rms_eval)

lemma rms_edge_pcm: "rms_of edge_pcm = 500"
  by (simp add: edge_pcm_def rms_eval)

lemma rms_quiet_pcm: "rms_of quiet_pcm = 10"
  by (simp add: quiet_pcm_def rms_eval)

lemma rms_odd_pcm: "rms_of odd_pcm = 0"
  by (simp add: odd_pcm_def rms_eval)

lemma rms_empty: "rms_of [] = 0"
  by (simp add: rms_of_def struct_unpack_def)

lemma sink_inv_talking: "sink_inv talking_sink"
  by (simp add: sink_inv_def talking_sink_def)

section \<open>Frames that are dropped at the door\<close>

text \<open>
  C10. A frame delivered with no attributed speaker (\<open>user is None\<close>) is discarded at once,
  whatever the playback state, the data and the time: the sink is returned as it was (so no
  entry is created and nothing changes), no call is scheduled, and the result is a normal
  return, not an exception. The result does not depend on \<open>pcm\<close>, whose RMS is not computed.
\<close>

theorem write_without_user:
  "write_frame self is_playing None pcm now = Inr (self, None)"
  by (simp add: write_frame_def)

text \<open>
  C9. While \<open>voice_client.is_playing()\<close> answers true, every frame of every speaker (and of
  none) is discarded: the whole sink is returned as it was and nothing is scheduled, for any
  data, malformed or not. The test reads no per-speaker state, so it covers the whole session.
  Once it answers false, frames are acted on again: the loud frame of a speaker who is not
  being processed is appended to that speaker's buffer.
\<close>

theorem playback_suppression:
  "write_frame self True user pcm now = Inr (self, None) \<and>
   (rms_of pcm > SILENCE_THRESHOLD \<and> \<not> processing (record_of self now (user_id u)) \<longrightarrow>
      (\<exists>self'. write_frame self False (Some u) pcm now = Inr (self', None) \<and>
         user_data self' (user_id u) =
           Some ((record_of self now (user_id u))
                   \<lparr>buffer := buffer (record_of self now (user_id u)) @ pcm, last_spoken := now\<rparr>) \<and>
         user_id u \<in> speaking_users self'))"
  by (simp add: write_frame_dropped write_frame_unfold Let_def with_record_def)

theorem playback_suppression_witness:
  "write_frame talking_sink True (Some bob) loud_pcm 5 = Inr (talking_sink, None) \<and>
   rms_of loud_pcm > SILENCE_THRESHOLD \<and> \<not> processing (record_of talking_sink 5 (user_id bob)) \<and>
   (\<exists>self'. write_frame talking_sink False (Some bob) loud_pcm 5 = Inr (self', None) \<and>
      user_data self' (user_id bob) = Some \<lparr>buffer = loud_pcm, last_spoken = 5, processing = False\<rparr> \<and>
      user_id bob \<in> speaking_users self')"
  using playback_suppression [of talking_sink "Some bob" loud_pcm 5 bob]
  by (simp add: rms_loud_pcm SILENCE_THRESHOLD_def record_of_def talking_sink_def bob_def)

lemma length_samples [simp]:
  "length loud_pcm = 4" "length edge_pcm = 4" "length quiet_pcm = 4" "length odd_pcm = 3"
  by (simp_all add: loud_pcm_def edge_pcm_def quiet_pcm_def odd_pcm_def)

section \<open>Loud frames\<close>

text \<open>
  C7. A frame is processed while playback is not active and the speaker's entry (the stored
  one, or the fresh one of a first frame) is not being processed. If its RMS is strictly
  greater than \<open>SILENCE_THRESHOLD\<close>, its bytes are appended to the speaker's buffer,
  \<open>last_spoken\<close> becomes the current time, the speaker is marked as speaking and nothing is
  scheduled. If its RMS is exactly \<open>SILENCE_THRESHOLD\<close>, it takes the silence branch: no
  speaker becomes marked, \<open>last_spoken\<close> stays, the buffer is kept or (at a flush) emptied
  but never extended, and the result is the one of an empty frame.
\<close>

theorem loud_frame_appended:
  assumes "\<not> processing (record_of self now (user_id u))"
  shows "(rms_of pcm > SILENCE_THRESHOLD \<longrightarrow>
            write_frame self False (Some u) pcm now =
              Inr (self\<lparr>user_data := (user_data self)(user_id u \<mapsto>
                           (record_of self now (user_id u))
                             \<lparr>buffer := buffer (record_of self now (user_id u)) @ pcm,
                              last_spoken := now\<rparr>),
                        speaking_users := insert (user_id u) (speaking_users self)\<rparr>, None)) \<and>
         (rms_of pcm = SILENCE_THRESHOLD \<longrightarrow>
            (\<exists>self' d. write_frame self False (Some u) pcm now = Inr (self', d) \<and>
               speaking_users self' \<subseteq> speaking_users self \<and>
               last_spoken (record_of self' now (user_id u)) = last_spoken (record_of self now (user_id u)) \<and>
               buffer (record_of self' now (user_id u)) =
                 (if user_id u \<in> speaking_users self \<and>
                     now - last_spoken (record_of self now (user_id u)) > SILENCE_DURATION
                  then [] else buffer (record_of self now (user_id u))) \<and>
               write_frame self False (Some u) pcm now = write_frame self False (Some u) [] now))"
  using assms
  by (auto simp: write_frame_unfold Let_def with_record_def record_of_def rms_empty SILENCE_THRESHOLD_def)

theorem loud_frame_appended_witness:
  "\<not> processing (record_of talking_sink 3 (user_id alice)) \<and>
   rms_of loud_pcm > SILENCE_THRESHOLD \<and>
   write_frame talking_sink False (Some alice) loud_pcm 3 =
     Inr (\<lparr>user_data = [1 \<mapsto> \<lparr>buffer = loud_pcm @ loud_pcm, last_spoken = 3, processing = False\<rparr>],
           speaking_users = {1}\<rparr>, None) \<and>
   rms_of edge_pcm = SILENCE_THRESHOLD \<and>
   write_frame talking_sink False (Some alice) edge_pcm 3 =
     Inr (\<lparr>user_data = [1 \<mapsto> \<lparr>buffer = [], last_spoken = 0, processing = False\<rparr>],
           speaking_users = {}\<rparr>, None) \<and>
   write_frame talking_sink False (Some alice) edge_pcm 1 = Inr (talking_sink, None)"
  using loud_frame_appended [of talking_sink 3 alice loud_pcm]
    loud_frame_appended [of talking_sink 3 alice edge_pcm]
    loud_frame_appended [of talking_sink 1 alice edge_pcm]
  by (simp add: rms_loud_pcm rms_edge_pcm rms_empty SILENCE_THRESHOLD_def SILENCE_DURATION_def
      record_of_def talking_sink_def alice_def write_frame_unfold with_record_def Let_def)

section \<open>Silent frames of a speaker who is not speaking\<close>

lemma sink_equiv_refl: "sink_equiv a a"
  by (simp add: sink_equiv_def)

lemma view_with_record:
  "view (with_record self k rec\<lparr>speaking_users := S\<rparr>) j =
     (if j = k then (buffer rec, processing rec, if k \<in> S then Some (last_spoken rec) else None)
      else view (self\<lparr>speaking_users := S\<rparr>) j)"
  by (auto simp: view_def with_record_def split: option.splits)

lemma view_with_record':
  "view (with_record self k rec) j =
     (if j = k then (buffer rec, processing rec,
                     if k \<in> speaking_users self then Some (last_spoken rec) else None)
      else view self j)"
  by (auto simp: view_def with_record_def split: option.splits)

lemma speaking_with_record [simp]:
  "speaking_users (with_record self k rec) = speaking_users self"
  by (simp add: with_record_def)

lemma view_speaking_update:
  "(j \<in> S \<longleftrightarrow> j \<in> speaking_users self) \<Longrightarrow> view (self\<lparr>speaking_users := S\<rparr>) j = view self j"
  by (simp add: view_def split: option.splits)

lemma view_record_of:
  "view self k =
     (buffer (record_of self now k), processing (record_of self now k),
      if k \<in> speaking_users self \<and> user_data self k \<noteq> None
      then Some (last_spoken (record_of self now k)) else None)"
  by (auto simp: view_def record_of_def split: option.splits)

text \<open>Equivalent sinks answer every frame alike: the same call is scheduled and the sinks
  stay equivalent. The end of a coroutine keeps them equivalent too.\<close>

lemma sink_equiv_write:
  assumes "sink_equiv a b"
    and "write_frame a is_playing user pcm now = Inr (a', d)"
    and "write_frame b is_playing user pcm now = Inr (b', d')"
  shows "d = d' \<and> sink_equiv a' b'"
proof (cases "user = None \<or> is_playing")
  case True
  with assms show ?thesis by (simp add: write_frame_dropped)
next
  case False
  then obtain u where u: "user = Some u" "is_playing = False" by auto
  define k where "k = user_id u"
  from assms(1) have sp: "speaking_users a = speaking_users b"
    and vw: "\<And>j. view a j = view b j" by (simp_all add: sink_equiv_def)
  from vw [of k] have bf: "buffer (record_of a now k) = buffer (record_of b now k)"
    and pr: "processing (record_of a now k) = processing (record_of b now k)"
    and ls: "k \<in> speaking_users b \<Longrightarrow> last_spoken (record_of a now k) = last_spoken (record_of b now k)"
    by (auto simp: view_def record_of_def sp split: option.splits if_splits)
  have oth: "\<And>j. j \<noteq> k \<Longrightarrow> view a j = view b j" by (simp add: vw)
  have upd: "\<And>j S. j \<noteq> k \<Longrightarrow> (j \<in> S \<longleftrightarrow> j \<in> speaking_users b) \<Longrightarrow>
      view (a\<lparr>speaking_users := S\<rparr>) j = view (b\<lparr>speaking_users := S\<rparr>) j"
    by (simp add: view_speaking_update sp oth)
  show ?thesis
    using assms(2,3) bf pr ls unfolding u write_frame_unfold Let_def k_def [symmetric] sink_equiv_def
    by (auto simp: sp view_with_record view_with_record' oth upd split: if_splits)
qed

lemma view_release:
  "view (release self k) j =
     (case view self j of (bf, pr, ls) \<Rightarrow> (bf, if j = k then False else pr, ls))"
  by (auto simp: view_def release_def split: option.splits)

lemma speaking_release [simp]: "speaking_users (release self k) = speaking_users self"
  by (simp add: release_def split: option.splits)

lemma sink_equiv_release: "sink_equiv a b \<Longrightarrow> sink_equiv (release a k) (release b k)"
  by (simp add: sink_equiv_def view_release)

text \<open>
  C8. A frame whose RMS is at most \<open>SILENCE_THRESHOLD\<close> (a malformed frame included), for
  a speaker not marked as speaking, schedules nothing and changes no state. If the speaker
  has an entry, or playback is active, the sink is returned as it was. On the speaker's very
  first frame the registry gains the entry line 62 creates (empty buffer, flag false): every
  entry that existed keeps all its fields, the set of speaking users is the same, the buffer
  the speaker's frames work on is as empty as before, and the sink is equivalent to the one
  before, so no later call can tell the difference.
\<close>

theorem silent_idle_frame:
  assumes "rms_of pcm \<le> SILENCE_THRESHOLD" "user_id u \<notin> speaking_users self"
  shows "\<exists>self'. write_frame self is_playing (Some u) pcm now = Inr (self', None) \<and>
           (user_data self (user_id u) \<noteq> None \<or> is_playing \<longrightarrow> self' = self) \<and>
           (user_data self (user_id u) = None \<and> \<not> is_playing \<longrightarrow>
              self' = with_record self (user_id u) \<lparr>buffer = [], last_spoken = now, processing = False\<rparr>) \<and>
           speaking_users self' = speaking_users self \<and>
           (\<forall>k rec. user_data self k = Some rec \<longrightarrow> user_data self' k = Some rec) \<and>
           buffer (record_of self' now (user_id u)) = buffer (record_of self now (user_id u)) \<and>
           sink_equiv self self'"
proof (cases is_playing)
  case True
  then show ?thesis by (simp add: write_frame_dropped sink_equiv_refl)
next
  case False
  show ?thesis
  proof (cases "user_data self (user_id u)")
    case None
    have "sink_equiv self (with_record self (user_id u) \<lparr>buffer = [], last_spoken = now, processing = False\<rparr>)"
      using assms(2) None by (simp add: sink_equiv_def view_with_record') (simp add: view_def)
    with None False assms show ?thesis
      by (simp add: write_frame_unfold Let_def record_of_def) (simp add: with_record_def)
  next
    case (Some rec)
    with False assms show ?thesis
      by (simp add: write_frame_unfold Let_def record_of_def with_record_same sink_equiv_refl)
  qed
qed

theorem silent_idle_frame_witness:
  "rms_of quiet_pcm \<le> SILENCE_THRESHOLD \<and> user_id alice \<notin> speaking_users idle_sink \<and>
   user_id bob \<notin> speaking_users talking_sink \<and>
   write_frame idle_sink False (Some alice) quiet_pcm 7 = Inr (idle_sink, None) \<and>
   write_frame talking_sink False (Some bob) quiet_pcm 7 =
     Inr (with_record talking_sink 2 \<lparr>buffer = [], last_spoken = 7, processing = False\<rparr>, None)"
proof -
  have r: "rms_of quiet_pcm \<le> SILENCE_THRESHOLD"
    by (simp add: rms_quiet_pcm SILENCE_THRESHOLD_def)
  have a: "user_id alice \<notin> speaking_users idle_sink"
    by (simp add: idle_sink_def)
  have b: "user_id bob \<notin> speaking_users talking_sink"
    by (simp add: talking_sink_def bob_def)
  from silent_idle_frame [OF r a, of False 7]
  have 1: "write_frame idle_sink False (Some alice) quiet_pcm 7 = Inr (idle_sink, None)"
    by (auto simp: idle_sink_def alice_def)
  from silent_idle_frame [OF r b, of False 7]
  have 2: "write_frame talking_sink False (Some bob) quiet_pcm 7 =
     Inr (with_record talking_sink 2 \<lparr>buffer = [], last_spoken = 7, processing = False\<rparr>, None)"
    by (auto simp: talking_sink_def bob_def)
  from r a b 1 2 show ?thesis by simp
qed

section \<open>The RMS estimator\<close>

text \<open>The item \<open>struct.unpack\<close> returns is the little-endian two's complement reading of
  the two bytes.\<close>

lemma uint_cat: "uint (word_cat (hi::8 word) (lo::8 word) :: 16 word) = uint lo + 256 * uint hi"
proof -
  have "uint lo < 256" "uint hi < 256" "0 \<le> uint lo" "0 \<le> uint hi"
    using uint_lt2p [of lo] uint_lt2p [of hi] by simp_all
  then show ?thesis
    by (simp add: word_cat_eq uint_word_ariths uint_up_ucast is_up push_bit_eq_mult uint_word_of_int take_bit_eq_mod)
qed

lemma sint_16: "sint (w :: 16 word) = (if uint w < 32768 then uint w else uint w - 65536)"
proof -
  have b: "0 \<le> uint w" "uint w < 65536"
    using uint_lt2p [of w] by simp_all
  have "sint w = take_bit 16 (uint w + 32768) - 32768"
    by (simp add: sint_uint signed_take_bit_eq_take_bit_shift)
  also have "\<dots> = (uint w + 32768) mod 65536 - 32768"
    by (simp add: take_bit_eq_mod)
  also have "\<dots> = (if uint w < 32768 then uint w else uint w - 65536)"
  proof (cases "uint w < 32768")
    case True
    with b have "(uint w + 32768) mod 65536 = uint w + 32768" by simp
    with True show ?thesis by simp
  next
    case False
    with b have "(uint w + 32768) mod 65536 = uint w + 32768 - 65536"
      by (simp add: mod_pos_geq)
    with False show ?thesis by simp
  qed
  finally show ?thesis .
qed

lemma int16_le_value: "int16_le lo hi = signed16_le lo hi"
  by (simp add: int16_le_def signed16_le_def sint_16 uint_cat)

lemma signed16_le_range: "- 32768 \<le> signed16_le lo hi \<and> signed16_le lo hi \<le> 32767"
proof -
  have "- (2 ^ 15) \<le> sint (word_cat hi lo :: 16 word)" "sint (word_cat hi lo :: 16 word) < 2 ^ 15"
    using sint_ge [of "word_cat hi lo :: 16 word"] sint_lt [of "word_cat hi lo :: 16 word"]
    by simp_all
  then have "- 32768 \<le> int16_le lo hi \<and> int16_le lo hi \<le> 32767"
    by (simp add: int16_le_def)
  then show ?thesis by (simp add: int16_le_value)
qed

lemma samples_of_Nil: "samples_of [] = []"
  by (simp add: samples_of_def)

lemma samples_of_Cons2: "samples_of (lo # hi # rest) = signed16_le lo hi # samples_of rest"
proof -
  have "[0..<Suc (length rest div 2)] = 0 # map Suc [0..<length rest div 2]"
    by (simp add: upt_conv_Cons map_Suc_upt del: upt_Suc)
  then show ?thesis
    by (simp add: samples_of_def comp_def del: upt_Suc)
qed

lemma unpack_items_samples: "even (length pcm) \<Longrightarrow> unpack_items pcm = samples_of pcm"
proof (induction pcm rule: unpack_items.induct)
  fix lo hi rest
  assume "even (length rest) \<Longrightarrow> unpack_items rest = samples_of rest"
    and "even (length (lo # hi # rest))"
  then show "unpack_items (lo # hi # rest) = samples_of (lo # hi # rest)"
    by (simp add: samples_of_Cons2 int16_le_value)
next
  show "unpack_items [] = samples_of []"
    by (simp add: samples_of_Nil)
next
  fix v :: byte
  assume "even (length [v])"
  then show "unpack_items [v] = samples_of [v]"
    by simp
qed

lemma write_frame_malformed:
  assumes "odd (length pcm)"
  shows "write_frame self is_playing user pcm now = write_frame self is_playing user [] now"
proof (cases "user = None \<or> is_playing")
  case True
  then show ?thesis by (simp add: write_frame_dropped)
next
  case False
  then obtain u where "user = Some u" "is_playing = False" by auto
  moreover have "rms_of pcm = 0" using assms by (auto simp: rms_of_def struct_unpack_def Let_def)
  ultimately show ?thesis
    by (simp add: write_frame_unfold Let_def rms_empty SILENCE_THRESHOLD_def)
qed

lemma rms_of_even:
  assumes "pcm \<noteq> []" "even (length pcm)"
  shows "rms_of pcm = rms_spec (samples_of pcm)"
proof -
  from assms have "0 < length pcm div 2" by (cases pcm) auto
  moreover from assms have "length pcm = 2 * (length pcm div 2)" by simp
  moreover have "length (samples_of pcm) = length pcm div 2" by (simp add: samples_of_def)
  ultimately show ?thesis
    using assms(2)
    by (simp add: rms_of_def struct_unpack_def rms_spec_def unpack_items_samples power2_eq_square Let_def)
qed

text \<open>
  C6. For a frame of an even, positive number of bytes the estimator returns
  \<open>sqrt(sum(sample_i^2) / N)\<close> over its \<open>N = len / 2\<close> samples, sample \<open>i\<close> being the signed
  16-bit number held low byte first in the bytes \<open>2i\<close> and \<open>2i + 1\<close>, all channels alike
  (floats read as reals). For an empty frame, and for a frame
  \<open>struct.unpack\<close> rejects (an odd number of bytes), it returns 0, which is at most the
  threshold: the frame is treated by \<open>write\<close> exactly as an empty, silent one, and \<open>write\<close>
  returns normally for every frame.
\<close>

theorem rms_estimator:
  "(pcm \<noteq> [] \<and> even (length pcm) \<longrightarrow>
      rms_of pcm = rms_spec (samples_of pcm) \<and> length (samples_of pcm) = length pcm div 2) \<and>
   (pcm = [] \<or> odd (length pcm) \<longrightarrow> rms_of pcm = 0 \<and> rms_of pcm \<le> SILENCE_THRESHOLD) \<and>
   (\<forall>s \<in> set (samples_of pcm). - 32768 \<le> s \<and> s \<le> 32767) \<and>
   (odd (length pcm) \<longrightarrow>
      write_frame self is_playing user pcm now = write_frame self is_playing user [] now) \<and>
   (\<exists>self' d. write_frame self is_playing user pcm now = Inr (self', d))"
proof -
  have "rms_of pcm = 0" if "pcm = [] \<or> odd (length pcm)"
    using that by (auto simp: rms_of_def struct_unpack_def Let_def)
  moreover have "length (samples_of pcm) = length pcm div 2"
    by (simp add: samples_of_def)
  moreover have "\<forall>s \<in> set (samples_of pcm). - 32768 \<le> s \<and> s \<le> 32767"
    using signed16_le_range by (auto simp: samples_of_def)
  ultimately show ?thesis
    using rms_of_even [of pcm] write_frame_malformed [of pcm self is_playing user now]
      write_frame_total [of self is_playing user pcm now]
    by (simp add: SILENCE_THRESHOLD_def)
qed

theorem rms_estimator_witness:
  "samples_of loud_pcm = [1000, - 1000] \<and> rms_of loud_pcm = rms_spec [1000, - 1000] \<and>
   rms_spec [1000, - 1000] = 1000 \<and>
   samples_of quiet_pcm = [10, - 10] \<and> rms_of quiet_pcm = rms_spec [10, - 10] \<and>
   rms_spec [10, - 10] = 10 \<and>
   rms_of odd_pcm = 0 \<and> rms_of [] = 0 \<and>
   write_frame talking_sink False (Some alice) odd_pcm 1 =
     write_frame talking_sink False (Some alice) [] 1"
proof -
  have s: "samples_of loud_pcm = [1000, - 1000]" "samples_of quiet_pcm = [10, - 10]"
    by (simp_all add: loud_pcm_def quiet_pcm_def samples_of_Cons2 samples_of_Nil signed16_le_def)
  have v: "rms_spec [1000, - 1000] = 1000" "rms_spec [10, - 10] = 10"
    by (simp_all add: rms_spec_def)
  have n: "loud_pcm \<noteq> []" "quiet_pcm \<noteq> []"
    by (simp_all add: loud_pcm_def quiet_pcm_def)
  from rms_estimator [of loud_pcm talking_sink False "Some alice" 1]
    rms_estimator [of quiet_pcm talking_sink False "Some alice" 1]
    rms_estimator [of odd_pcm talking_sink False "Some alice" 1]
    rms_estimator [of "[]" talking_sink False "Some alice" 1] s v n
  show ?thesis
    by simp
qed

section \<open>The flush\<close>

lemma unpack_items_replicate: "unpack_items (replicate (2 * n) b) = replicate n (int16_le b b)"
  by (induction n) simp_all

lemma rms_of_replicate:
  "0 < n \<Longrightarrow> rms_of (replicate (2 * n) b) = \<bar>real_of_int (int16_le b b)\<bar>"
  by (simp add: rms_of_def struct_unpack_def unpack_items_replicate sum_list_replicate
      flip: power2_eq_square)

lemma short_utterance_facts:
  "length short_utterance = 60000" "rms_of short_utterance = 4112"
proof -
  show "length short_utterance = 60000" by (simp add: short_utterance_def)
  have "int16_le 16 16 = 4112" by (simp add: int16_le_def word_cat_eq)
  with rms_of_replicate [of 30000 16] show "rms_of short_utterance = 4112"
    by (simp add: short_utterance_def)
qed

lemma record_of_with_record [simp]:
  "record_of (with_record self k rec) now k = rec"
  "record_of (with_record self k rec\<lparr>speaking_users := S\<rparr>) now k = rec"
  by (simp_all add: record_of_def with_record_def)

lemma sink_inv_speaking: "sink_inv (speaking_sink buf)"
  by (simp add: sink_inv_def speaking_sink_def)

text \<open>
  C1. This is the silence branch of \<open>write\<close> (lines 77-96), which a frame reaches when line 45
  has not dropped it, that is while playback is not active. For every such frame whose RMS is
  at most \<open>SILENCE_THRESHOLD\<close>, in a sink the code can reach, for a speaker marked as
  speaking whose \<open>last_spoken\<close> is more than \<open>SILENCE_DURATION\<close> old: the speaker is
  unmarked; if the
  buffer is longer than \<open>MIN_AUDIO_LENGTH * 48000 * 2 * 2\<close> bytes, its content is handed to
  \<open>process_audio\<close> and the flag \<open>processing\<close> is true in the sink that results; and in both
  cases the buffer is empty afterwards.
\<close>

theorem silence_flush:
  assumes "sink_inv self" "user_id u \<in> speaking_users self"
    and "rms_of pcm \<le> SILENCE_THRESHOLD"
    and "now - last_spoken (record_of self now (user_id u)) > SILENCE_DURATION"
  shows "write_frame self False (Some u) pcm now =
           (let rec = record_of self now (user_id u);
                long = (real (length (buffer rec)) > MIN_AUDIO_LENGTH * 48000 * 2 * 2)
            in Inr (self\<lparr>user_data := (user_data self)(user_id u \<mapsto>
                            rec\<lparr>processing := long, buffer := []\<rparr>),
                         speaking_users := speaking_users self - {user_id u}\<rparr>,
                    if long then Some (u, buffer rec) else None))"
proof -
  define rec where "rec = record_of self now (user_id u)"
  from assms(1,2) have np: "\<not> processing rec"
    by (auto simp: sink_inv_iff record_of_def rec_def)
  then have e: "rec\<lparr>processing := False, buffer := []\<rparr> = rec\<lparr>buffer := []\<rparr>"
    by (cases rec) simp
  show ?thesis
  proof (cases "96000 < length (buffer rec)")
    case True
    with np assms(2-4) show ?thesis
      unfolding rec_def
      by (simp add: MIN_AUDIO_LENGTH_def write_frame_unfold Let_def with_record_def)
  next
    case False
    with np assms(2-4) show ?thesis
      unfolding rec_def
      by (simp add: MIN_AUDIO_LENGTH_def write_frame_unfold Let_def with_record_def
          e [unfolded rec_def])
  qed
qed

theorem silence_flush_witness:
  "sink_inv (speaking_sink long_utterance) \<and> sink_inv talking_sink \<and>
   user_id alice \<in> speaking_users (speaking_sink long_utterance) \<and>
   user_id alice \<in> speaking_users talking_sink \<and>
   rms_of quiet_pcm \<le> SILENCE_THRESHOLD \<and>
   2 - last_spoken (record_of (speaking_sink long_utterance) 2 (user_id alice)) > SILENCE_DURATION \<and>
   2 - last_spoken (record_of talking_sink 2 (user_id alice)) > SILENCE_DURATION \<and>
   write_frame (speaking_sink long_utterance) False (Some alice) quiet_pcm 2 =
     Inr (\<lparr>user_data = [1 \<mapsto> \<lparr>buffer = [], last_spoken = 0, processing = True\<rparr>],
           speaking_users = {}\<rparr>, Some (alice, long_utterance)) \<and>
   write_frame talking_sink False (Some alice) quiet_pcm 2 =
     Inr (\<lparr>user_data = [1 \<mapsto> \<lparr>buffer = [], last_spoken = 0, processing = False\<rparr>],
           speaking_users = {}\<rparr>, None)"
proof -
  have l: "length long_utterance = 96002"
    by (simp add: long_utterance_def)
  have a: "user_id alice \<in> speaking_users (speaking_sink long_utterance)"
    "user_id alice \<in> speaking_users talking_sink"
    by (simp_all add: speaking_sink_def talking_sink_def alice_def)
  have r: "rms_of quiet_pcm \<le> SILENCE_THRESHOLD"
    by (simp add: rms_quiet_pcm SILENCE_THRESHOLD_def)
  have t: "2 - last_spoken (record_of (speaking_sink long_utterance) 2 (user_id alice)) > SILENCE_DURATION"
    "2 - last_spoken (record_of talking_sink 2 (user_id alice)) > SILENCE_DURATION"
    by (simp_all add: speaking_sink_def talking_sink_def alice_def record_of_def SILENCE_DURATION_def)
  have 1: "write_frame (speaking_sink long_utterance) False (Some alice) quiet_pcm 2 =
     Inr (\<lparr>user_data = [1 \<mapsto> \<lparr>buffer = [], last_spoken = 0, processing = True\<rparr>],
           speaking_users = {}\<rparr>, Some (alice, long_utterance))"
    using silence_flush [OF sink_inv_speaking a(1) r t(1)]
    by (simp add: l MIN_AUDIO_LENGTH_def speaking_sink_def alice_def record_of_def)
  have 2: "write_frame talking_sink False (Some alice) quiet_pcm 2 =
     Inr (\<lparr>user_data = [1 \<mapsto> \<lparr>buffer = [], last_spoken = 0, processing = False\<rparr>],
           speaking_users = {}\<rparr>, None)"
    using silence_flush [OF sink_inv_talking a(2) r t(2)]
    by (simp add: MIN_AUDIO_LENGTH_def talking_sink_def alice_def record_of_def)
  from sink_inv_speaking sink_inv_talking a r t 1 2 show ?thesis by simp
qed

text \<open>
  C5, as stated, fails: a flushed buffer of 60000 bytes is longer than 48000 bytes, and it is
  not handed to \<open>process_audio\<close>. The sink is fed from its initial state with one loud frame of
  60000 bytes and, two seconds later, an empty frame: one buffer is flushed, none is scheduled.
\<close>

theorem min_length_not_48000:
  "48000 < length short_utterance \<and>
   feed init_sink alice [(short_utterance, 0), ([], 2)] = Inr (idle_sink, [short_utterance], [])"
  by (simp add: short_utterance_facts rms_empty write_frame_unfold Let_def record_of_def
      with_record_def init_sink_def idle_sink_def alice_def flushed_def
      SILENCE_THRESHOLD_def SILENCE_DURATION_def)

text \<open>
  C5, amended. Under the default configuration half a second of 48 kHz, stereo, 16-bit PCM
  is \<open>0.5 * 48000 * 2 * 2 = 96000\<close> bytes. A flush hands the buffer to \<open>process_audio\<close>
  exactly when it is longer than 96000 bytes; a flushed buffer of at most 96000 bytes is
  dropped: nothing is scheduled, the flag stays false and the buffer is cleared.
\<close>

theorem min_length_96000:
  assumes "sink_inv self" "user_id u \<in> speaking_users self"
    and "rms_of pcm \<le> SILENCE_THRESHOLD"
    and "now - last_spoken (record_of self now (user_id u)) > SILENCE_DURATION"
    and "write_frame self False (Some u) pcm now = Inr (self', d)"
  shows "MIN_AUDIO_LENGTH * 48000 * 2 * 2 = 96000 \<and>
         (d = Some (u, buffer (record_of self now (user_id u))) \<longleftrightarrow>
            96000 < length (buffer (record_of self now (user_id u)))) \<and>
         (d = None \<longleftrightarrow> length (buffer (record_of self now (user_id u))) \<le> 96000) \<and>
         processing (record_of self' now (user_id u)) =
           (96000 < length (buffer (record_of self now (user_id u)))) \<and>
         buffer (record_of self' now (user_id u)) = []"
proof -
  from assms(1,2) have "\<not> processing (record_of self now (user_id u))"
    by (auto simp: sink_inv_iff record_of_def)
  with assms(2-5) show ?thesis
    by (auto simp: MIN_AUDIO_LENGTH_def write_frame_unfold Let_def split: if_splits)
qed

theorem min_length_96000_witness:
  "sink_inv (speaking_sink long_utterance) \<and>
   user_id alice \<in> speaking_users (speaking_sink long_utterance) \<and>
   rms_of [] \<le> SILENCE_THRESHOLD \<and>
   2 - last_spoken (record_of (speaking_sink long_utterance) 2 (user_id alice)) > SILENCE_DURATION \<and>
   write_frame (speaking_sink long_utterance) False (Some alice) [] 2 =
     Inr (\<lparr>user_data = [1 \<mapsto> \<lparr>buffer = [], last_spoken = 0, processing = True\<rparr>],
           speaking_users = {}\<rparr>, Some (alice, long_utterance)) \<and>
   write_frame (speaking_sink exact_utterance) False (Some alice) [] 2 =
     Inr (\<lparr>user_data = [1 \<mapsto> \<lparr>buffer = [], last_spoken = 0, processing = False\<rparr>],
           speaking_users = {}\<rparr>, None)"
proof -
  have l: "length long_utterance = 96002" "length exact_utterance = 96000"
    by (simp_all add: long_utterance_def exact_utterance_def)
  have a: "user_id alice \<in> speaking_users (speaking_sink buf)" for buf
    by (simp add: speaking_sink_def alice_def)
  have r: "rms_of [] \<le> SILENCE_THRESHOLD"
    by (simp add: rms_empty SILENCE_THRESHOLD_def)
  have t: "2 - last_spoken (record_of (speaking_sink buf) 2 (user_id alice)) > SILENCE_DURATION" for buf
    by (simp add: speaking_sink_def alice_def record_of_def SILENCE_DURATION_def)
  have w1: "write_frame (speaking_sink long_utterance) False (Some alice) [] 2 =
     Inr (\<lparr>user_data = [1 \<mapsto> \<lparr>buffer = [], last_spoken = 0, processing = True\<rparr>],
           speaking_users = {}\<rparr>, Some (alice, long_utterance))"
    by (simp add: l rms_empty write_frame_unfold Let_def record_of_def with_record_def
        speaking_sink_def alice_def SILENCE_THRESHOLD_def SILENCE_DURATION_def)
  have w2: "write_frame (speaking_sink exact_utterance) False (Some alice) [] 2 =
     Inr (\<lparr>user_data = [1 \<mapsto> \<lparr>buffer = [], last_spoken = 0, processing = False\<rparr>],
           speaking_users = {}\<rparr>, None)"
    by (simp add: l rms_empty write_frame_unfold Let_def record_of_def with_record_def
        speaking_sink_def alice_def SILENCE_THRESHOLD_def SILENCE_DURATION_def)
  from min_length_96000 [OF sink_inv_speaking a r t w1] min_length_96000 [OF sink_inv_speaking a r t w2]
    sink_inv_speaking a r t w1 w2
  show ?thesis by simp
qed

section \<open>The utterance processor\<close>

lemma process_audio_result:
  "\<exists>out. process_audio env self u pcm_data = Inr (release self (user_id u), out)"
proof -
  obtain out r where t: "process_audio_try env u pcm_data = (out, r)"
    by (cases "process_audio_try env u pcm_data")
  show ?thesis
  proof (cases r)
    case (Inl e)
    with t show ?thesis by (simp add: process_audio_def)
  next
    case (Inr x)
    with t show ?thesis by (simp add: process_audio_def)
  qed
qed

lemma release_record:
  "user_data (release self k) j =
     (if j = k then map_option (\<lambda>rec. rec\<lparr>processing := False\<rparr>) (user_data self k)
      else user_data self j)"
  by (simp add: release_def split: option.splits)

text \<open>
  C3. Whatever the external calls do (each one succeeds or raises: writing the wave file,
  the transcription, the removal of the recording, the chat completion, the synthesis, the
  connection test, the playback), and also when the transcript is empty or blank,
  \<open>process_audio\<close> ends normally, with no exception left to propagate, and its \<open>finally\<close>
  block has set the flag \<open>processing\<close> of the owning speaker's entry to false. No other
  entry and no other field changes.
\<close>

theorem process_audio_releases_flag:
  "\<exists>self' out.
     process_audio env self u pcm_data = Inr (self', out) \<and>
     (\<forall>rec. user_data self (user_id u) = Some rec \<longrightarrow>
        user_data self' (user_id u) = Some (rec\<lparr>processing := False\<rparr>)) \<and>
     (\<forall>k. k \<noteq> user_id u \<longrightarrow> user_data self' k = user_data self k) \<and>
     speaking_users self' = speaking_users self"
  using process_audio_result [of env self u pcm_data]
  by (auto simp: release_record)

theorem process_audio_releases_flag_witness:
  "user_data processing_sink (user_id alice) =
     Some \<lparr>buffer = [], last_spoken = 0, processing = True\<rparr> \<and>
   process_audio good_services processing_sink alice loud_pcm =
     Inr (idle_sink,
          [Print (Processing_audio ''alice''), Print (Said ''alice'' ''hello''),
           Print (Reply ''hi''), Play]) \<and>
   process_audio (good_services\<lparr>wave_write := \<lambda>pcm. Inl (ServiceError ''disk'')\<rparr>)
       processing_sink alice loud_pcm =
     Inr (idle_sink,
          [Print (Processing_audio ''alice''),
           Print (Error_in_process_audio (ServiceError ''disk''))]) \<and>
   process_audio (good_services\<lparr>transcription := \<lambda>pcm. Inl (ServiceError ''stt'')\<rparr>)
       processing_sink alice loud_pcm =
     Inr (idle_sink, [Print (Processing_audio ''alice''), Print (Error_in_STT (ServiceError ''stt''))]) \<and>
   process_audio (good_services\<lparr>transcription := \<lambda>pcm. Inr ''  ''\<rparr>)
       processing_sink alice loud_pcm =
     Inr (idle_sink, [Print (Processing_audio ''alice''), Print (Said ''alice'' ''  '')]) \<and>
   process_audio (good_services\<lparr>chat_completion := \<lambda>text. Inl (ServiceError ''chat'')\<rparr>)
       processing_sink alice loud_pcm =
     Inr (idle_sink,
          [Print (Processing_audio ''alice''), Print (Said ''alice'' ''hello''),
           Print (Error_in_Chat (ServiceError ''chat''))]) \<and>
   process_audio (good_services\<lparr>speech := \<lambda>text. Inl (ServiceError ''tts'')\<rparr>)
       processing_sink alice loud_pcm =
     Inr (idle_sink,
          [Print (Processing_audio ''alice''), Print (Said ''alice'' ''hello''),
           Print (Reply ''hi''), Print (Error_in_TTS (ServiceError ''tts''))]) \<and>
   process_audio (good_services\<lparr>play := Inl (ServiceError ''playing'')\<rparr>)
       processing_sink alice loud_pcm =
     Inr (idle_sink,
          [Print (Processing_audio ''alice''), Print (Said ''alice'' ''hello''),
           Print (Reply ''hi''), Print (Error_in_TTS (ServiceError ''playing''))])"
  using process_audio_releases_flag [of good_services processing_sink alice loud_pcm]
  by (simp add: process_audio_def process_audio_try_def good_services_def processing_sink_def
      idle_sink_def alice_def release_def strip_def isspace_def)

section \<open>One outstanding call per speaker\<close>

lemma write_frame_flagged:
  assumes "user_data self (user_id u) = Some rec" "processing rec"
  shows "write_frame self is_playing (Some u) pcm now = Inr (self, None)"
proof (cases is_playing)
  case True
  then show ?thesis by (simp add: write_frame_dropped)
next
  case False
  with assms show ?thesis
    by (simp add: write_frame_unfold Let_def record_of_def with_record_same)
qed

lemma write_frame_keeps_flag:
  assumes "write_frame self is_playing user pcm now = Inr (self', d)"
    and "user_data self k = Some rec" "processing rec"
  shows "user_data self' k = Some rec"
proof (cases "user = None \<or> is_playing")
  case True
  with assms show ?thesis by (simp add: write_frame_dropped)
next
  case False
  then obtain u where u: "user = Some u" "is_playing = False" by auto
  show ?thesis
  proof (cases "user_id u = k")
    case True
    with assms u write_frame_flagged [of self u rec False pcm now] show ?thesis by simp
  next
    case False
    with assms u show ?thesis
      by (auto simp: write_frame_unfold Let_def with_record_def split: if_splits)
  qed
qed

lemma write_frame_dispatch:
  assumes "write_frame self is_playing user pcm now = Inr (self', Some (u, audio))"
  shows "user = Some u \<and> \<not> processing (record_of self now (user_id u)) \<and>
         (\<exists>rec. user_data self' (user_id u) = Some rec \<and> processing rec)"
proof (cases "user = None \<or> is_playing")
  case True
  with assms show ?thesis by (simp add: write_frame_dropped)
next
  case False
  then obtain v where v: "user = Some v" "is_playing = False" by auto
  with assms show ?thesis
    by (auto simp: write_frame_unfold Let_def with_record_def split: if_splits)
qed

lemma session_inv_iff:
  "session_inv ss \<longleftrightarrow>
     sink_inv (sink ss) \<and>
     (\<forall>c \<in> set (in_flight ss).
        length (filter (\<lambda>d. user_id (fst d) = user_id (fst c)) (in_flight ss)) = 1 \<and>
        (\<exists>rec. user_data (sink ss) (user_id (fst c)) = Some rec \<and> processing rec))"
  by (auto simp: session_inv_def outstanding_def split: option.splits)

lemma session_inv_frame:
  assumes inv: "session_inv ss"
    and w: "write_frame (sink ss) is_playing user pcm now = Inr (self', d)"
  shows "session_inv \<lparr>sink = self', in_flight = in_flight ss @ (case d of None \<Rightarrow> [] | Some c \<Rightarrow> [c])\<rparr>"
proof -
  from inv have si: "sink_inv (sink ss)"
    and fl: "\<And>c. c \<in> set (in_flight ss) \<Longrightarrow>
        length (filter (\<lambda>d. user_id (fst d) = user_id (fst c)) (in_flight ss)) = 1 \<and>
        (\<exists>rec. user_data (sink ss) (user_id (fst c)) = Some rec \<and> processing rec)"
    by (simp_all add: session_inv_iff)
  from si w have si': "sink_inv self'" by (rule sink_inv_write)
  have keep: "\<exists>rec. user_data self' (user_id (fst c)) = Some rec \<and> processing rec"
    if "c \<in> set (in_flight ss)" for c
    using fl [OF that] write_frame_keeps_flag [OF w] by blast
  show ?thesis
  proof (cases d)
    case None
    with si' fl keep show ?thesis
      by (simp add: session_inv_iff)
  next
    case (Some c)
    obtain u audio where c: "c = (u, audio)" by (cases c)
    from write_frame_dispatch [OF w [unfolded Some c]]
    have np: "\<not> processing (record_of (sink ss) now (user_id u))"
      and p': "\<exists>rec. user_data self' (user_id u) = Some rec \<and> processing rec" by simp_all
    have none: "user_id (fst c') \<noteq> user_id u" if "c' \<in> set (in_flight ss)" for c'
      using fl [OF that] np by (auto simp: record_of_def)
    then have zero: "filter (\<lambda>d. user_id (fst d) = user_id u) (in_flight ss) = []"
      by (auto simp: filter_empty_conv)
    show ?thesis
      unfolding Some c session_inv_iff
    proof (intro conjI ballI)
      show "sink_inv (sink \<lparr>sink = self', in_flight = in_flight ss @ (case Some (u, audio) of None \<Rightarrow> [] | Some c \<Rightarrow> [c])\<rparr>)"
        using si' by simp
    next
      fix c'
      assume "c' \<in> set (in_flight \<lparr>sink = self', in_flight = in_flight ss @ (case Some (u, audio) of None \<Rightarrow> [] | Some c \<Rightarrow> [c])\<rparr>)"
      then have mem: "c' \<in> set (in_flight ss) \<or> c' = (u, audio)" by auto
      then consider "c' \<in> set (in_flight ss)" | "c' = (u, audio)" by auto
      then show "length (filter (\<lambda>d. user_id (fst d) = user_id (fst c'))
                   (in_flight \<lparr>sink = self', in_flight = in_flight ss @ (case Some (u, audio) of None \<Rightarrow> [] | Some c \<Rightarrow> [c])\<rparr>)) = 1"
      proof cases
        case 1
        with fl [OF 1] none [OF 1] show ?thesis by simp
      next
        case 2
        with zero show ?thesis by simp
      qed
      from mem keep [of c'] p'
      show "\<exists>rec. user_data (sink \<lparr>sink = self', in_flight = in_flight ss @ (case Some (u, audio) of None \<Rightarrow> [] | Some c \<Rightarrow> [c])\<rparr>) (user_id (fst c')) = Some rec \<and> processing rec"
        by auto
    qed
  qed
qed

lemma session_inv_finish:
  assumes inv: "session_inv ss" and i: "i < length (in_flight ss)"
  shows "session_inv \<lparr>sink = release (sink ss) (user_id (fst (in_flight ss ! i))),
                        in_flight = take i (in_flight ss) @ drop (Suc i) (in_flight ss)\<rparr>"
proof -
  define xs where "xs = in_flight ss"
  define c where "c = xs ! i"
  define k where "k = user_id (fst c)"
  define rest where "rest = take i xs @ drop (Suc i) xs"
  from i have split: "xs = take i xs @ c # drop (Suc i) xs"
    unfolding xs_def c_def by (rule id_take_nth_drop)
  from inv have si: "sink_inv (sink ss)"
    and fl: "\<And>c'. c' \<in> set xs \<Longrightarrow>
        length (filter (\<lambda>d. user_id (fst d) = user_id (fst c')) xs) = 1 \<and>
        (\<exists>rec. user_data (sink ss) (user_id (fst c')) = Some rec \<and> processing rec)"
    by (simp_all add: session_inv_iff xs_def)
  have filt: "filter P xs = filter P (take i xs) @ (if P c then [c] else []) @ filter P (drop (Suc i) xs)"
    for P
    by (subst split) simp
  have cmem: "c \<in> set xs" using i by (simp add: c_def xs_def)
  from fl [OF cmem] have "length (filter (\<lambda>d. user_id (fst d) = k) xs) = 1"
    by (simp add: k_def)
  then have "filter (\<lambda>d. user_id (fst d) = k) rest = []"
    unfolding rest_def by (subst (asm) filt) (simp add: k_def)
  then have other: "user_id (fst c') \<noteq> k" if "c' \<in> set rest" for c'
    using that by (auto simp: filter_empty_conv)
  have sub: "set rest \<subseteq> set xs"
    unfolding rest_def using set_take_subset [of i xs] set_drop_subset [of "Suc i" xs] by auto
  have "session_inv \<lparr>sink = release (sink ss) k, in_flight = rest\<rparr>"
    unfolding session_inv_iff
  proof (intro conjI ballI)
    show "sink_inv (sink \<lparr>sink = release (sink ss) k, in_flight = rest\<rparr>)"
      using si by (simp add: sink_inv_release)
  next
    fix c'
    assume "c' \<in> set (in_flight \<lparr>sink = release (sink ss) k, in_flight = rest\<rparr>)"
    then have m: "c' \<in> set rest" by simp
    with sub have mx: "c' \<in> set xs" by auto
    from other [OF m] have ne: "user_id (fst c) \<noteq> user_id (fst c')" by (simp add: k_def)
    from fl [OF mx] have "length (filter (\<lambda>d. user_id (fst d) = user_id (fst c')) xs) = 1" by simp
    then have "length (filter (\<lambda>d. user_id (fst d) = user_id (fst c')) rest) = 1"
      unfolding rest_def using ne by (subst (asm) filt) simp
    then show "length (filter (\<lambda>d. user_id (fst d) = user_id (fst c'))
        (in_flight \<lparr>sink = release (sink ss) k, in_flight = rest\<rparr>)) = 1" by simp
    from fl [OF mx] other [OF m]
    show "\<exists>rec. user_data (sink \<lparr>sink = release (sink ss) k, in_flight = rest\<rparr>) (user_id (fst c')) = Some rec \<and> processing rec"
      by (simp add: release_record)
  qed
  then show ?thesis by (simp add: k_def c_def xs_def rest_def)
qed

lemma step_total_inv:
  assumes "session_inv ss"
  shows "\<exists>ss'. step ss e = Inr ss' \<and> session_inv ss'"
proof (cases e)
  case (Frame is_playing user pcm now)
  from write_frame_total [of "sink ss" is_playing user pcm now]
  obtain self' d where w: "write_frame (sink ss) is_playing user pcm now = Inr (self', d)" by blast
  from session_inv_frame [OF assms w] w Frame show ?thesis by simp
next
  case (Finish i env)
  show ?thesis
  proof (cases "i < length (in_flight ss)")
    case True
    from process_audio_result [of env "sink ss" "fst (in_flight ss ! i)" "snd (in_flight ss ! i)"]
    obtain out where "process_audio env (sink ss) (fst (in_flight ss ! i)) (snd (in_flight ss ! i)) =
        Inr (release (sink ss) (user_id (fst (in_flight ss ! i))), out)" by blast
    with session_inv_finish [OF assms True] True Finish show ?thesis by simp
  next
    case False
    with assms Finish show ?thesis by simp
  qed
qed

lemma run_total_inv:
  "session_inv ss \<Longrightarrow> \<exists>ss'. run ss evs = Inr ss' \<and> session_inv ss'"
proof (induction evs arbitrary: ss)
  case Nil
  then show ?case by simp
next
  case (Cons e evs)
  from step_total_inv [OF Cons.prems, of e]
  obtain ss1 where s: "step ss e = Inr ss1" "session_inv ss1" by blast
  from Cons.IH [OF s(2)] s(1) show ?case by simp
qed

lemma session_inv_init: "session_inv init_session"
  by (simp add: session_inv_def init_session_def sink_inv_init)

lemma session_inv_outstanding: "session_inv ss \<Longrightarrow> outstanding ss k \<le> 1"
proof (cases "filter (\<lambda>d. user_id (fst d) = k) (in_flight ss)")
  case Nil
  then show ?thesis by (simp add: outstanding_def)
next
  case (Cons c cs)
  assume inv: "session_inv ss"
  have "c \<in> set (filter (\<lambda>d. user_id (fst d) = k) (in_flight ss))" by (simp add: Cons)
  then have "c \<in> set (in_flight ss)" "user_id (fst c) = k" by simp_all
  with inv show ?thesis by (auto simp: session_inv_iff outstanding_def)
qed

lemma long_utterance_facts:
  "length long_utterance = 96002" "rms_of long_utterance = 4112"
proof -
  show "length long_utterance = 96002" by (simp add: long_utterance_def)
  have "int16_le 16 16 = 4112" by (simp add: int16_le_def word_cat_eq)
  with rms_of_replicate [of 48001 16] show "rms_of long_utterance = 4112"
    by (simp add: long_utterance_def)
qed

lemma run_burst: "run init_session burst = Inr after_burst"
  by (simp add: burst_def after_burst_def init_session_def init_sink_def long_utterance_facts
      rms_empty rms_loud_pcm write_frame_unfold Let_def record_of_def with_record_def
      alice_def bob_def SILENCE_THRESHOLD_def SILENCE_DURATION_def)

text \<open>
  C2. In every session, after any sequence of frames and of coroutines finishing, every
  speaker has at most one outstanding \<open>process_audio\<close> call (and no step raises). The flag is
  set before the dispatch: whenever \<open>write\<close> schedules a call for a speaker, the sink it
  leaves has that speaker's flag true. And a frame of a speaker whose flag is true is
  discarded, whether or not playback is active: the sink is returned as it was, so neither
  that speaker's entry nor any other speaker's entry changes, and nothing is scheduled.
\<close>

theorem one_invocation_per_speaker:
  "(\<exists>ss. run init_session evs = Inr ss \<and> (\<forall>k. outstanding ss k \<le> 1)) \<and>
   (write_frame self is_playing user pcm now = Inr (self', Some (u, audio)) \<longrightarrow>
      (\<exists>rec'. user_data self' (user_id u) = Some rec' \<and> processing rec')) \<and>
   (user_data self (user_id u) = Some rec \<and> processing rec \<longrightarrow>
      write_frame self is_playing (Some u) pcm now = Inr (self, None))"
proof (intro conjI impI)
  from run_total_inv [OF session_inv_init, of evs]
  obtain ss where "run init_session evs = Inr ss" "session_inv ss" by blast
  then show "\<exists>ss. run init_session evs = Inr ss \<and> (\<forall>k. outstanding ss k \<le> 1)"
    using session_inv_outstanding by blast
next
  assume "write_frame self is_playing user pcm now = Inr (self', Some (u, audio))"
  from write_frame_dispatch [OF this]
  show "\<exists>rec'. user_data self' (user_id u) = Some rec' \<and> processing rec'" by simp
next
  assume "user_data self (user_id u) = Some rec \<and> processing rec"
  then show "write_frame self is_playing (Some u) pcm now = Inr (self, None)"
    using write_frame_flagged by blast
qed

theorem one_invocation_per_speaker_witness:
  "run init_session burst = Inr after_burst \<and>
   outstanding after_burst 1 = 1 \<and> outstanding after_burst 2 = 0 \<and>
   write_frame (speaking_sink long_utterance) False (Some alice) [] 2 =
     Inr (processing_sink, Some (alice, long_utterance)) \<and>
   user_data processing_sink (user_id alice) =
     Some \<lparr>buffer = [], last_spoken = 0, processing = True\<rparr> \<and>
   write_frame processing_sink False (Some alice) loud_pcm 3 = Inr (processing_sink, None)"
proof -
  have w: "write_frame (speaking_sink long_utterance) False (Some alice) [] 2 =
     Inr (processing_sink, Some (alice, long_utterance))"
    by (simp add: long_utterance_facts rms_empty write_frame_unfold Let_def record_of_def
        with_record_def speaking_sink_def processing_sink_def alice_def
        SILENCE_THRESHOLD_def SILENCE_DURATION_def)
  have r: "user_data processing_sink (user_id alice) =
      Some \<lparr>buffer = [], last_spoken = 0, processing = True\<rparr> \<and>
      processing \<lparr>buffer = [], last_spoken = 0, processing = True\<rparr>"
    by (simp add: processing_sink_def alice_def)
  have o: "outstanding after_burst 1 = 1" "outstanding after_burst 2 = 0"
    by (simp_all add: outstanding_def after_burst_def alice_def)
  from one_invocation_per_speaker [where evs = burst and self = processing_sink
      and is_playing = False and u = alice and pcm = loud_pcm and now = 3
      and rec = "\<lparr>buffer = [], last_spoken = 0, processing = True\<rparr>"]
    one_invocation_per_speaker [where self = "speaking_sink long_utterance"
      and is_playing = False and user = "Some alice" and pcm = "[]" and now = 2
      and self' = processing_sink and u = alice and audio = long_utterance]
    r w o run_burst
  show ?thesis by simp
qed

section \<open>An utterance interrupted by a short silence\<close>

lemma feed_append:
  "feed self u (xs @ ys) =
     (case feed self u xs of
        Inl e \<Rightarrow> Inl e
      | Inr (s1, f1, d1) \<Rightarrow>
          (case feed s1 u ys of
             Inl e \<Rightarrow> Inl e
           | Inr (s2, f2, d2) \<Rightarrow> Inr (s2, f1 @ f2, d1 @ d2)))"
  by (induction xs arbitrary: self) (auto split: sum.splits prod.splits)

lemma feed_append_Inr:
  "feed self u xs = Inr (s1, f1, d1) \<Longrightarrow> feed s1 u ys = Inr (s2, f2, d2) \<Longrightarrow>
   feed self u (xs @ ys) = Inr (s2, f1 @ f2, d1 @ d2)"
  by (simp add: feed_append)

lemma loud_step:
  assumes "\<not> processing (record_of self now k)" "k = user_id u" "rms_of pcm > SILENCE_THRESHOLD"
  shows "\<exists>self'. write_frame self False (Some u) pcm now = Inr (self', None) \<and>
           accumulating self' k (buffer (record_of self now k) @ pcm) now \<and>
           flushed self self' k = []"
proof -
  have "(record_of self now k)\<lparr>buffer := buffer (record_of self now k) @ pcm, last_spoken := now\<rparr> =
        \<lparr>buffer = buffer (record_of self now k) @ pcm, last_spoken = now, processing = False\<rparr>"
    using assms(1) by (cases "record_of self now k") simp
  with assms show ?thesis
    by (simp add: write_frame_unfold Let_def accumulating_def flushed_def with_record_def)
qed

lemma feed_loud:
  assumes "\<not> processing (record_of self t0 (user_id u))" "L \<noteq> []" "\<forall>f \<in> set L. loud f"
  shows "\<exists>self'. feed self u L = Inr (self', [], []) \<and>
           accumulating self' (user_id u) (buffer (record_of self t0 (user_id u)) @ pcm_of L) (snd (last L))"
  using assms
proof (induction L arbitrary: self t0)
  case Nil
  then show ?case by simp
next
  case (Cons fr L)
  obtain pcm now where fr: "fr = (pcm, now)" by (cases fr)
  define k where "k = user_id u"
  have same: "processing (record_of self now k) = processing (record_of self t0 k)"
    "buffer (record_of self now k) = buffer (record_of self t0 k)"
    by (simp_all add: record_of_def split: option.splits)
  from Cons.prems have "rms_of pcm > SILENCE_THRESHOLD" by (simp add: fr loud_def)
  with loud_step [of self now k u pcm] Cons.prems(1) same
  obtain s1 where s1: "write_frame self False (Some u) pcm now = Inr (s1, None)"
    "accumulating s1 k (buffer (record_of self t0 k) @ pcm) now" "flushed self s1 k = []"
    by (auto simp: k_def)
  from s1(2) have r1: "record_of s1 t k = \<lparr>buffer = buffer (record_of self t0 k) @ pcm, last_spoken = now, processing = False\<rparr>" for t
    by (simp add: accumulating_def record_of_def)
  show ?case
  proof (cases "L = []")
    case True
    with s1 show ?thesis by (simp add: fr pcm_of_def k_def)
  next
    case False
    from Cons.IH [of s1 now] False Cons.prems(3) r1
    obtain s2 where "feed s1 u L = Inr (s2, [], [])"
      "accumulating s2 k ((buffer (record_of self t0 k) @ pcm) @ pcm_of L) (snd (last L))"
      by (auto simp: k_def)
    with s1 False show ?thesis by (simp add: fr pcm_of_def k_def)
  qed
qed

lemma feed_gap:
  assumes "accumulating self (user_id u) buf t"
    and "\<forall>f \<in> set G. silent f \<and> snd f - t \<le> SILENCE_DURATION"
  shows "feed self u G = Inr (self, [], [])"
  using assms
proof (induction G)
  case Nil
  then show ?case by simp
next
  case (Cons fr G)
  obtain pcm now where fr: "fr = (pcm, now)" by (cases fr)
  from Cons.prems(1) have r: "record_of self now (user_id u) = \<lparr>buffer = buf, last_spoken = t, processing = False\<rparr>"
    and d: "user_data self (user_id u) = Some \<lparr>buffer = buf, last_spoken = t, processing = False\<rparr>"
    by (simp_all add: accumulating_def record_of_def)
  from Cons.prems(2) have "rms_of pcm \<le> SILENCE_THRESHOLD" "now - t \<le> SILENCE_DURATION"
    by (simp_all add: fr silent_def)
  with r d have "write_frame self False (Some u) pcm now = Inr (self, None)"
    by (simp add: write_frame_unfold Let_def with_record_same)
  with Cons show ?case by (simp add: fr flushed_def)
qed

lemma flush_step:
  assumes "accumulating self (user_id u) buf t" "rms_of pcm \<le> SILENCE_THRESHOLD"
    and "now - t > SILENCE_DURATION"
  shows "\<exists>self'. write_frame self False (Some u) pcm now =
             Inr (self', if 96000 < length buf then Some (u, buf) else None) \<and>
           flushed self self' (user_id u) = [buf] \<and>
           user_id u \<notin> speaking_users self' \<and>
           (\<exists>rec. user_data self' (user_id u) = Some rec \<and> buffer rec = [])"
proof -
  from assms(1) have r: "record_of self now (user_id u) = \<lparr>buffer = buf, last_spoken = t, processing = False\<rparr>"
    and d: "user_data self (user_id u) = Some \<lparr>buffer = buf, last_spoken = t, processing = False\<rparr>"
    and s: "user_id u \<in> speaking_users self"
    by (simp_all add: accumulating_def record_of_def)
  with assms(2,3) show ?thesis
    by (simp add: write_frame_unfold Let_def flushed_def with_record_def)
qed

lemma feed_rest:
  assumes "user_id u \<notin> speaking_users self" "user_data self (user_id u) = Some rec"
    and "\<forall>f \<in> set S. silent f"
  shows "feed self u S = Inr (self, [], [])"
  using assms
proof (induction S)
  case Nil
  then show ?case by simp
next
  case (Cons fr S)
  obtain pcm now where fr: "fr = (pcm, now)" by (cases fr)
  from Cons.prems have "rms_of pcm \<le> SILENCE_THRESHOLD" by (simp add: fr silent_def)
  with Cons.prems(1,2) have "write_frame self False (Some u) pcm now = Inr (self, None)"
    by (simp add: write_frame_unfold Let_def record_of_def with_record_same)
  with Cons show ?case by (simp add: fr flushed_def)
qed

text \<open>
  C4, as stated, fails: silent frames are never appended to the buffer (only line 74, in the
  loud branch, extends it). In the specification's scenario the single flushed buffer is the
  two loud frames, 8 bytes, not the 12 bytes of the two loud frames plus the gap.
\<close>

theorem gap_not_buffered:
  "feed init_sink alice scenario = Inr (after_scenario, [loud_pcm @ loud_pcm], []) \<and>
   length (loud_pcm @ loud_pcm) \<noteq> length loud_pcm + length quiet_pcm + length loud_pcm"
  by (simp add: scenario_def after_scenario_def init_sink_def rms_loud_pcm rms_quiet_pcm
      write_frame_unfold Let_def record_of_def with_record_def flushed_def alice_def
      SILENCE_THRESHOLD_def SILENCE_DURATION_def)

text \<open>
  C4, amended. One speaker, with playback inactive, starts idle and not being processed in a
  sink the code can reach, and sends loud frames \<open>L1\<close>, then silent frames \<open>G\<close> each less than
  \<open>SILENCE_DURATION\<close> after the last loud frame, then loud frames \<open>L2\<close>, then silent frames of
  which \<open>fr\<close> is the first to arrive more than \<open>SILENCE_DURATION\<close> after the last loud frame.
  Then the gap triggers no flush and leaves the speaker accumulating the audio of \<open>L1\<close>;
  over the whole sequence exactly one flush occurs; the later loud frames were appended to
  the same buffer, so the flushed buffer is the audio of \<open>L1\<close> followed by the audio of \<open>L2\<close>,
  with no byte of the silent gap, its length the sum of both loud segments; it is handed to
  \<open>process_audio\<close> if longer than 96000 bytes; and the speaker ends unmarked with an empty
  buffer.
\<close>

theorem interrupted_utterance:
  assumes "sink_inv self" "user_id u \<notin> speaking_users self"
    and "\<not> processing (record_of self 0 (user_id u))"
    and "L1 \<noteq> []" "\<forall>f \<in> set L1. loud f"
    and "\<forall>f \<in> set G. silent f \<and> snd f - snd (last L1) < SILENCE_DURATION"
    and "L2 \<noteq> []" "\<forall>f \<in> set L2. loud f"
    and "\<forall>f \<in> set S1. silent f \<and> snd f - snd (last L2) \<le> SILENCE_DURATION"
    and "silent fr" "snd fr - snd (last L2) > SILENCE_DURATION"
    and "\<forall>f \<in> set S2. silent f"
  shows "\<exists>s1 s2.
           feed self u (L1 @ G) = Inr (s1, [], []) \<and>
           accumulating s1 (user_id u) (pcm_of L1) (snd (last L1)) \<and>
           feed self u (L1 @ G @ L2 @ S1 @ [fr] @ S2) =
             Inr (s2, [pcm_of L1 @ pcm_of L2],
                  if 96000 < length (pcm_of L1 @ pcm_of L2)
                  then [(u, pcm_of L1 @ pcm_of L2)] else []) \<and>
           length (pcm_of L1 @ pcm_of L2) = length (pcm_of L1) + length (pcm_of L2) \<and>
           user_id u \<notin> speaking_users s2 \<and>
           buffer (record_of s2 0 (user_id u)) = []"
proof -
  define k where "k = user_id u"
  have b0: "buffer (record_of self 0 k) = []"
    using assms(1,2) by (auto simp: sink_inv_iff record_of_def k_def split: option.splits)
  from feed_loud [OF assms(3,4,5)] b0
  obtain a1 where a1: "feed self u L1 = Inr (a1, [], [])"
    "accumulating a1 k (pcm_of L1) (snd (last L1))" by (auto simp: k_def)
  from assms(6) have "\<forall>f \<in> set G. silent f \<and> snd f - snd (last L1) \<le> SILENCE_DURATION"
    by auto
  with feed_gap [OF a1(2) [unfolded k_def]] have g: "feed a1 u G = Inr (a1, [], [])" by simp
  from feed_append_Inr [OF a1(1) g] have p1: "feed self u (L1 @ G) = Inr (a1, [], [])" by simp
  from a1(2) have r1: "record_of a1 t k = \<lparr>buffer = pcm_of L1, last_spoken = snd (last L1), processing = False\<rparr>" for t
    by (simp add: accumulating_def record_of_def)
  from feed_loud [of a1 0 u L2] assms(7,8) r1
  obtain a2 where a2: "feed a1 u L2 = Inr (a2, [], [])"
    "accumulating a2 k (pcm_of L1 @ pcm_of L2) (snd (last L2))" by (auto simp: k_def)
  from feed_gap [OF a2(2) [unfolded k_def] assms(9)] have g2: "feed a2 u S1 = Inr (a2, [], [])" .
  obtain pcm now where fr: "fr = (pcm, now)" by (cases fr)
  from assms(10,11) have "rms_of pcm \<le> SILENCE_THRESHOLD" "now - snd (last L2) > SILENCE_DURATION"
    by (simp_all add: fr silent_def)
  from flush_step [OF a2(2) [unfolded k_def] this]
  obtain a3 rec where a3: "write_frame a2 False (Some u) pcm now =
        Inr (a3, if 96000 < length (pcm_of L1 @ pcm_of L2) then Some (u, pcm_of L1 @ pcm_of L2) else None)"
    "flushed a2 a3 (user_id u) = [pcm_of L1 @ pcm_of L2]"
    "user_id u \<notin> speaking_users a3" "user_data a3 (user_id u) = Some rec" "buffer rec = []"
    by blast
  from feed_rest [OF a3(3,4) assms(12)] have r: "feed a3 u S2 = Inr (a3, [], [])" .
  from a3(1,2) have f: "feed a2 u [fr] =
      Inr (a3, [pcm_of L1 @ pcm_of L2],
           if 96000 < length (pcm_of L1 @ pcm_of L2) then [(u, pcm_of L1 @ pcm_of L2)] else [])"
    by (simp add: fr)
  from feed_append_Inr [OF f r] have 1: "feed a2 u ([fr] @ S2) =
      Inr (a3, [pcm_of L1 @ pcm_of L2],
           if 96000 < length (pcm_of L1 @ pcm_of L2) then [(u, pcm_of L1 @ pcm_of L2)] else [])"
    by simp
  from feed_append_Inr [OF g2 1] have 2: "feed a2 u (S1 @ [fr] @ S2) =
      Inr (a3, [pcm_of L1 @ pcm_of L2],
           if 96000 < length (pcm_of L1 @ pcm_of L2) then [(u, pcm_of L1 @ pcm_of L2)] else [])"
    by simp
  from feed_append_Inr [OF a2(1) 2] have 3: "feed a1 u (L2 @ S1 @ [fr] @ S2) =
      Inr (a3, [pcm_of L1 @ pcm_of L2],
           if 96000 < length (pcm_of L1 @ pcm_of L2) then [(u, pcm_of L1 @ pcm_of L2)] else [])"
    by simp
  from feed_append_Inr [OF p1 3] have 4: "feed self u ((L1 @ G) @ L2 @ S1 @ [fr] @ S2) =
      Inr (a3, [pcm_of L1 @ pcm_of L2],
           if 96000 < length (pcm_of L1 @ pcm_of L2) then [(u, pcm_of L1 @ pcm_of L2)] else [])"
    by simp
  from a3(4,5) have "buffer (record_of a3 0 (user_id u)) = []" by (simp add: record_of_def)
  with p1 a1(2) 4 a3(3) show ?thesis by (auto simp: k_def)
qed

theorem interrupted_utterance_witness:
  "sink_inv init_sink \<and> user_id alice \<notin> speaking_users init_sink \<and>
   \<not> processing (record_of init_sink 0 (user_id alice)) \<and>
   loud (loud_pcm, 0) \<and> silent (quiet_pcm, 0.3) \<and> (0.3::real) - 0 < SILENCE_DURATION \<and>
   loud (loud_pcm, 0.6) \<and> silent (quiet_pcm, 1) \<and> (1::real) - 0.6 \<le> SILENCE_DURATION \<and>
   (1.9::real) - 0.6 > SILENCE_DURATION \<and>
   (\<exists>s1 s2.
      feed init_sink alice [(loud_pcm, 0), (quiet_pcm, 0.3)] = Inr (s1, [], []) \<and>
      accumulating s1 (user_id alice) loud_pcm 0 \<and>
      feed init_sink alice
        [(loud_pcm, 0), (quiet_pcm, 0.3), (loud_pcm, 0.6), (quiet_pcm, 1), (quiet_pcm, 1.9),
         (quiet_pcm, 2)] = Inr (s2, [loud_pcm @ loud_pcm], []) \<and>
      user_id alice \<notin> speaking_users s2 \<and> buffer (record_of s2 0 (user_id alice)) = [])"
proof -
  have h: "user_id alice \<notin> speaking_users init_sink"
    "\<not> processing (record_of init_sink 0 (user_id alice))"
    by (simp_all add: init_sink_def record_of_def)
  have l: "loud (loud_pcm, t)" "silent (quiet_pcm, t)" for t
    by (simp_all add: loud_def silent_def rms_loud_pcm rms_quiet_pcm SILENCE_THRESHOLD_def)
  have t: "(0.3::real) - 0 < SILENCE_DURATION" "(1::real) - 0.6 \<le> SILENCE_DURATION"
    "(1.9::real) - 0.6 > SILENCE_DURATION"
    by (simp_all add: SILENCE_DURATION_def)
  from interrupted_utterance [where self = init_sink and u = alice
      and ?L1.0 = "[(loud_pcm, 0)]" and G = "[(quiet_pcm, 0.3)]" and ?L2.0 = "[(loud_pcm, 0.6)]"
      and ?S1.0 = "[(quiet_pcm, 1)]" and fr = "(quiet_pcm, 1.9)" and ?S2.0 = "[(quiet_pcm, 2)]"]
    sink_inv_init h l t
  show ?thesis by (simp add: pcm_of_def)
qed

end
